theory Spec2Isabelle
  imports Main "HOL-Library.Sublist"
begin

section \<open>Strings\<close>

text \<open>
  The analyzer (\<^verbatim>\<open>scripts/analyze-documentation.js\<close>) reads its documents as UTF-8 and works
  on JavaScript strings. A string is modelled by its UTF-8 bytes, a \<^typ>\<open>string\<close>: an ASCII
  character is one byte below 128, every byte of another character is 128 or more. All
  regular expressions and separators of the script are ASCII, so searching and cutting the
  bytes finds the same pieces as searching and cutting the JavaScript string.
\<close>

definition isAscii :: "char \<Rightarrow> bool" where
  "isAscii c = ((of_char c :: int) < 128)"

definition toLowerChar :: "char \<Rightarrow> char" where
  "toLowerChar c =
     (let n = (of_char c :: int) in if 65 \<le> n \<and> n \<le> 90 then char_of (n + 32) else c)"

definition toUpperChar :: "char \<Rightarrow> char" where
  "toUpperChar c =
     (let n = (of_char c :: int) in if 97 \<le> n \<and> n \<le> 122 then char_of (n - 32) else c)"

text \<open>
  \<^verbatim>\<open>s.toLowerCase()\<close> is a library function that follows the Unicode case mapping (it
  turns the Kelvin sign U+212A into \<^verbatim>\<open>k\<close>, for one). On a string of ASCII characters it
  lowers the letters \<^verbatim>\<open>A\<close>..\<^verbatim>\<open>Z\<close> and nothing else. What it does to a string with a non-ASCII
  character is the parameter \<open>lower\<close>, on which nothing is assumed: every function that
  lower-cases a string takes it, and every theorem holds for every \<open>lower\<close>.
\<close>

definition toLowerCase :: "(string \<Rightarrow> string) \<Rightarrow> string \<Rightarrow> string" where
  "toLowerCase lower s = (if list_all isAscii s then map toLowerChar s else lower s)"

text \<open>
  A sample of the parameter, for examples: the case mapping of strings made of ASCII
  characters and Kelvin signs (\<open>kelvin\<close> is the UTF-8 encoding of U+212A). The example
  documents and paths that are all ASCII do not consult the parameter.
\<close>

definition kelvin :: string where
  "kelvin = [CHR 0xE2, CHR 0x84, CHR 0xAA]"

fun lower_sample :: "string \<Rightarrow> string" where
  "lower_sample (a # b # c # s) =
     (if [a, b, c] = kelvin then CHR ''k'' # lower_sample s
      else toLowerChar a # lower_sample (b # c # s))"
| "lower_sample s = map toLowerChar s"

definition startsWith :: "string \<Rightarrow> string \<Rightarrow> bool" where
  "startsWith s p = (take (length p) s = p)"

text \<open>
  \<^verbatim>\<open>s.split(sep)\<close> for a one-character separator: the pieces between the separators,
  so the empty string gives one (empty) piece.
\<close>

fun split :: "char \<Rightarrow> string \<Rightarrow> string list" where
  "split sep [] = [[]]"
| "split sep (c # cs) =
     (if c = sep then [] # split sep cs
      else (case split sep cs of
              [] \<Rightarrow> [[c]]
            | p # ps \<Rightarrow> (c # p) # ps))"

abbreviation newline :: char where
  "newline \<equiv> CHR 0x0A"

abbreviation dquote :: char where
  "dquote \<equiv> CHR 0x22"

abbreviation squote :: char where
  "squote \<equiv> CHR 0x27"

section \<open>Regular expressions\<close>

text \<open>
  The regular expressions of the script are sequences of character classes, each taken
  once, or under a greedy \<^verbatim>\<open>*\<close> or \<^verbatim>\<open>+\<close>, and possibly wrapped in a capturing group.
  \<open>Lit c\<close> is the character \<open>c\<close>, \<open>AnyOf cs\<close> the class \<^verbatim>\<open>[cs]\<close> and \<open>NoneOf cs\<close> the
  class \<^verbatim>\<open>[^cs]\<close>. The flag \<open>ignoreCase\<close> is \<^verbatim>\<open>/i\<close>: both sides are canonicalised
  (upper-cased) before they are compared. Without the \<^verbatim>\<open>u\<close> flag a non-ASCII character is
  never canonicalised to an ASCII one, so against the ASCII characters of the patterns
  canonicalising is upper-casing the ASCII letters and leaving every other byte alone.
\<close>

datatype cset = Lit char | AnyOf "char list" | NoneOf "char list"

datatype quant = Once | Star | Plus

datatype piece = Piece cset quant bool

record regex =
  pieces :: "piece list"
  ignoreCase :: bool

definition canon :: "bool \<Rightarrow> char \<Rightarrow> char" where
  "canon ic c = (if ic then toUpperChar c else c)"

fun cset_ok :: "bool \<Rightarrow> cset \<Rightarrow> char \<Rightarrow> bool" where
  "cset_ok ic (Lit a) c = (canon ic a = canon ic c)"
| "cset_ok ic (AnyOf as) c = (canon ic c \<in> set (map (canon ic) as))"
| "cset_ok ic (NoneOf as) c = (canon ic c \<notin> set (map (canon ic) as))"

text \<open>
  Backtracking over a greedy quantifier: the continuation \<open>f\<close> is tried after \<open>n\<close>
  repetitions, then after \<open>n - 1\<close>, and so on down to \<open>lo\<close>; the first success wins.
\<close>

fun try_counts :: "(nat \<Rightarrow> 'a option) \<Rightarrow> nat \<Rightarrow> nat \<Rightarrow> 'a option" where
  "try_counts f lo n =
     (if n < lo then None
      else case f n of
             Some r \<Rightarrow> Some r
           | None \<Rightarrow> (case n of 0 \<Rightarrow> None | Suc m \<Rightarrow> try_counts f lo m))"

text \<open>
  \<open>match_pieces ic ps s\<close> matches the pieces \<open>ps\<close> at the start of \<open>s\<close>; the result is
  the list of captured groups and the number of characters consumed.
\<close>

fun match_pieces :: "bool \<Rightarrow> piece list \<Rightarrow> string \<Rightarrow> (string list \<times> nat) option" where
  "match_pieces ic [] s = Some ([], 0)"
| "match_pieces ic (Piece cs Once cap # ps) s =
     (case s of
        [] \<Rightarrow> None
      | c # r \<Rightarrow>
          if cset_ok ic cs c
          then map_option (\<lambda>(caps, n). ((if cap then [[c]] else []) @ caps, Suc n))
                 (match_pieces ic ps r)
          else None)"
| "match_pieces ic (Piece cs Star cap # ps) s =
     try_counts
       (\<lambda>k. map_option (\<lambda>(caps, n). ((if cap then [take k s] else []) @ caps, k + n))
              (match_pieces ic ps (drop k s)))
       0 (length (takeWhile (cset_ok ic cs) s))"
| "match_pieces ic (Piece cs Plus cap # ps) s =
     try_counts
       (\<lambda>k. map_option (\<lambda>(caps, n). ((if cap then [take k s] else []) @ caps, k + n))
              (match_pieces ic ps (drop k s)))
       1 (length (takeWhile (cset_ok ic cs) s))"

text \<open>Whether a piece is wrapped in a capturing group.\<close>

fun captures :: "piece \<Rightarrow> bool" where
  "captures (Piece cs q cap) = cap"

text \<open>
  The match array of \<^verbatim>\<open>exec\<close>: \<open>index\<close> is \<^verbatim>\<open>match.index\<close> and \<open>groups ! k\<close> is
  \<^verbatim>\<open>match[k]\<close>, the whole match at \<open>0\<close>.
\<close>

record rmatch =
  index :: nat
  groups :: "string list"

text \<open>
  \<^verbatim>\<open>regex.exec(s)\<close> reads and writes \<^verbatim>\<open>regex.lastIndex\<close>; here \<open>lastIndex\<close> is passed in
  and the new one is returned beside the match. The search fails when \<open>lastIndex\<close> is
  beyond the end of the string, tries each start position from \<open>lastIndex\<close> on, and on
  success leaves \<open>lastIndex\<close> at the end of the match.
\<close>

function exec :: "regex \<Rightarrow> string \<Rightarrow> nat \<Rightarrow> (rmatch \<times> nat) option" where
  "exec r s lastIndex =
     (if length s < lastIndex then None
      else case match_pieces (ignoreCase r) (pieces r) (drop lastIndex s) of
             Some (caps, n) \<Rightarrow>
               Some (\<lparr>index = lastIndex, groups = take n (drop lastIndex s) # caps\<rparr>,
                     lastIndex + n)
           | None \<Rightarrow> exec r s (Suc lastIndex))"
  by pat_completeness auto
termination
  by (relation "measure (\<lambda>(r, s, i). Suc (length s) - i)") auto

declare try_counts.simps [simp del]
declare exec.simps [simp del]

lemma try_counts_Some:
  "try_counts f lo n = Some r \<Longrightarrow> \<exists>k. lo \<le> k \<and> k \<le> n \<and> f k = Some r"
proof (induction n)
  case 0
  then show ?case
    by (subst (asm) try_counts.simps) (auto split: if_splits option.splits)
next
  case (Suc n)
  from Suc.prems show ?case
  proof (subst (asm) try_counts.simps, simp split: if_splits option.splits)
    assume "try_counts f lo n = Some r"
    from Suc.IH [OF this] show ?thesis by (meson le_Suc_eq)
  next
    assume "f (Suc n) = Some r" and "\<not> Suc n < lo"
    then show ?thesis by (intro exI [of _ "Suc n"]) simp
  qed
qed

lemma match_pieces_length:
  "match_pieces ic ps s = Some (caps, n) \<Longrightarrow> n \<le> length s"
proof (induction ic ps s arbitrary: caps n rule: match_pieces.induct)
  case (1 ic s)
  then show ?case by simp
next
  case (2 ic cs cap ps s)
  then show ?case by (fastforce split: list.splits if_splits)
next
  case (3 ic cs cap ps s)
  from "3.prems" obtain k where
    "map_option (\<lambda>(caps, n). ((if cap then [take k s] else []) @ caps, k + n))
       (match_pieces ic ps (drop k s)) = Some (caps, n)"
    and k: "k \<le> length (takeWhile (cset_ok ic cs) s)"
    by (auto dest!: try_counts_Some)
  then obtain caps' n' where "match_pieces ic ps (drop k s) = Some (caps', n')" "n = k + n'"
    by auto
  with "3.IH" have "n' \<le> length (drop k s)" by blast
  moreover have "k \<le> length s"
    using k length_takeWhile_le [of "cset_ok ic cs" s] by linarith
  ultimately show ?case using \<open>n = k + n'\<close> by simp
next
  case (4 ic cs cap ps s)
  from "4.prems" obtain k where
    "map_option (\<lambda>(caps, n). ((if cap then [take k s] else []) @ caps, k + n))
       (match_pieces ic ps (drop k s)) = Some (caps, n)"
    and k: "k \<le> length (takeWhile (cset_ok ic cs) s)"
    by (auto dest!: try_counts_Some)
  then obtain caps' n' where "match_pieces ic ps (drop k s) = Some (caps', n')" "n = k + n'"
    by auto
  with "4.IH" have "n' \<le> length (drop k s)" by blast
  moreover have "k \<le> length s"
    using k length_takeWhile_le [of "cset_ok ic cs" s] by linarith
  ultimately show ?case using \<open>n = k + n'\<close> by simp
qed

lemma match_pieces_Once_pos:
  "match_pieces ic (Piece cs Once cap # ps) s = Some (caps, n) \<Longrightarrow> 0 < n"
  by (auto split: list.splits if_splits)

lemma exec_Some:
  "exec r s i = Some (m, e) \<Longrightarrow>
     i \<le> index m \<and> index m \<le> length s \<and>
     (\<exists>caps n. match_pieces (ignoreCase r) (pieces r) (drop (index m) s) = Some (caps, n) \<and>
        groups m = take n (drop (index m) s) # caps \<and> e = index m + n)"
proof (induction r s i rule: exec.induct)
  case (1 r s lastIndex)
  show ?case
  proof (cases "match_pieces (ignoreCase r) (pieces r) (drop lastIndex s)")
    case None
    with "1.prems" have le: "\<not> length s < lastIndex"
      and "exec r s (Suc lastIndex) = Some (m, e)"
      by (subst (asm) exec.simps, simp split: if_splits)+
    from "1.IH" [OF le None this(2)] show ?thesis by auto
  next
    case (Some a)
    with "1.prems" show ?thesis
      by (subst (asm) exec.simps) (auto split: if_splits prod.splits)
  qed
qed

text \<open>
  A regular expression that starts with a single character never matches the empty
  string, so a scan with it moves \<open>lastIndex\<close> forward at every match.
\<close>

lemma exec_progress:
  assumes "exec r s i = Some (m, e)" and "pieces r = Piece cs Once cap # ps"
  shows "i < e \<and> i \<le> length s \<and> index m < e \<and> e \<le> length s"
proof -
  from exec_Some [OF assms(1)] obtain caps n where
    i: "i \<le> index m" "index m \<le> length s"
    and m: "match_pieces (ignoreCase r) (pieces r) (drop (index m) s) = Some (caps, n)"
    and e: "e = index m + n"
    by blast
  from m have "0 < n" unfolding assms(2) by (rule match_pieces_Once_pos)
  moreover from m have "n \<le> length (drop (index m) s)" by (rule match_pieces_length)
  ultimately show ?thesis using i e by auto
qed

text \<open>\<^verbatim>\<open>regex.test(s)\<close> of a regular expression without the \<^verbatim>\<open>g\<close> flag.\<close>

definition test :: "regex \<Rightarrow> string \<Rightarrow> bool" where
  "test r s = (exec r s 0 \<noteq> None)"

text \<open>\<open>contains_i w s\<close>: the string \<open>s\<close> contains \<open>w\<close>, letter case ignored.\<close>

definition contains_i :: "string \<Rightarrow> string \<Rightarrow> bool" where
  "contains_i w s = sublist (map toUpperChar w) (map toUpperChar s)"

text \<open>A pattern \<^verbatim>\<open>/word/i\<close>.\<close>

definition word_i :: "string \<Rightarrow> regex" where
  "word_i w = \<lparr>pieces = map (\<lambda>c. Piece (Lit c) Once False) w, ignoreCase = True\<rparr>"

section \<open>Node's path.extname\<close>

text \<open>
  \<^verbatim>\<open>path.extname\<close> (POSIX) scans the path from its end: trailing slashes are skipped,
  the scan stops at the slash before the last component, and the extension runs from the
  last dot of that component to its end, unless only dots come before it.
\<close>

record ext_state =
  startDot :: int
  startPart :: int
  endIdx :: int
  matchedSlash :: bool
  preDotState :: int

fun extname_loop :: "string \<Rightarrow> nat \<Rightarrow> ext_state \<Rightarrow> ext_state" where
  "extname_loop p 0 st = st"
| "extname_loop p (Suc i) st =
     (if p ! i = CHR ''/'' then
        (if \<not> matchedSlash st then st\<lparr>startPart := int i + 1\<rparr>
         else extname_loop p i st)
      else
        (let st1 = (if endIdx st = - 1 then st\<lparr>endIdx := int i + 1, matchedSlash := False\<rparr>
                    else st);
             st2 = (if p ! i = CHR ''.'' then
                      (if startDot st1 = - 1 then st1\<lparr>startDot := int i\<rparr>
                       else if preDotState st1 \<noteq> 1 then st1\<lparr>preDotState := 1\<rparr>
                       else st1)
                    else if startDot st1 \<noteq> - 1 then st1\<lparr>preDotState := - 1\<rparr>
                    else st1)
         in extname_loop p i st2))"

definition extname :: "string \<Rightarrow> string" where
  "extname p =
     (let st = extname_loop p (length p)
                 \<lparr>startDot = - 1, startPart = 0, endIdx = - 1, matchedSlash = True,
                  preDotState = 0\<rparr>
      in if startDot st = - 1 \<or> endIdx st = - 1 \<or> preDotState st = 0 \<or>
            (preDotState st = 1 \<and> startDot st = endIdx st - 1 \<and>
             startDot st = startPart st + 1)
         then []
         else take (nat (endIdx st) - nat (startDot st)) (drop (nat (startDot st)) p))"

section \<open>The analyzer's tables\<close>

text \<open>Patterns that indicate Camunda-specific screenshots.\<close>

definition CAMUNDA_WORDS :: "string list" where
  "CAMUNDA_WORDS =
     [''camunda'', ''cockpit'', ''tasklist'', ''admin-'', ''webapp'', ''dashboard'',
      ''process-definition'', ''process-instance'', ''decision-'', ''task-'', ''filter-'',
      ''batch'', ''migration'', ''cleanup'']"

definition CAMUNDA_PATTERNS :: "regex list" where
  "CAMUNDA_PATTERNS = map word_i CAMUNDA_WORDS"

text \<open>
  The categories are the keys of the object \<^verbatim>\<open>CATEGORIES\<close>; the categorizer returns
  nothing else, so they are a datatype. \<^verbatim>\<open>Object.entries\<close> lists them in the order
  they are written.
\<close>

datatype category = Cockpit | Tasklist | Admin | Welcome | Modeler | Other

record config =
  patterns :: "regex list"
  description :: string

definition CATEGORIES :: "(category \<times> config) list" where
  "CATEGORIES =
     [(Cockpit, \<lparr>patterns = map word_i [''cockpit'', ''dashboard'', ''process-'',
                   ''decision-'', ''batch'', ''migration'', ''heatmap''],
                 description = ''Cockpit webapp screenshots''\<rparr>),
      (Tasklist, \<lparr>patterns = map word_i [''tasklist'', ''task-'', ''filter'', ''form''],
                  description = ''Tasklist webapp screenshots''\<rparr>),
      (Admin, \<lparr>patterns = map word_i [''admin-'', ''user'', ''group'', ''tenant'',
                 ''authorization'', ''system''],
               description = ''Admin webapp screenshots''\<rparr>),
      (Welcome, \<lparr>patterns = map word_i [''welcome'', ''profile''],
                 description = ''Welcome page screenshots''\<rparr>),
      (Modeler, \<lparr>patterns = map word_i [''modeler'', ''diagram'', ''bpmn-''],
                 description = ''Modeler screenshots''\<rparr>),
      (Other, \<lparr>patterns = [], description = ''Other screenshots''\<rparr>)]"

section \<open>Categorizing and flagging a path\<close>

text \<open>
  \<^verbatim>\<open>categorizeScreenshot\<close>: two nested loops over the categories and their patterns,
  left at the first pattern that matches the lower-cased path.
\<close>

fun patterns_loop :: "regex list \<Rightarrow> string \<Rightarrow> bool" where
  "patterns_loop [] pathLower = False"
| "patterns_loop (pattern # rest) pathLower =
     (if test pattern pathLower then True else patterns_loop rest pathLower)"

fun categories_loop :: "(category \<times> config) list \<Rightarrow> string \<Rightarrow> category" where
  "categories_loop [] pathLower = Other"
| "categories_loop ((category, config) # rest) pathLower =
     (if patterns_loop (patterns config) pathLower then category
      else categories_loop rest pathLower)"

definition categorizeScreenshot :: "(string \<Rightarrow> string) \<Rightarrow> string \<Rightarrow> category" where
  "categorizeScreenshot lower imagePath =
     categories_loop CATEGORIES (toLowerCase lower imagePath)"

definition isCamundaSpecific :: "(string \<Rightarrow> string) \<Rightarrow> string \<Rightarrow> bool" where
  "isCamundaSpecific lower imagePath =
     (let pathLower = toLowerCase lower imagePath
      in list_ex (\<lambda>pattern. test pattern pathLower) CAMUNDA_PATTERNS)"

section \<open>Extracting the image references of a document\<close>

text \<open>\<^verbatim>\<open>/!\[([^\]]*)\]\(([^)]+)\)/g\<close>\<close>

definition mdRegex :: regex where
  "mdRegex =
     \<lparr>pieces =
        [Piece (Lit CHR ''!'') Once False, Piece (Lit CHR ''['') Once False,
         Piece (NoneOf '']'') Star True,
         Piece (Lit CHR '']'') Once False, Piece (Lit CHR ''('') Once False,
         Piece (NoneOf '')'') Plus True,
         Piece (Lit CHR '')'') Once False],
      ignoreCase = False\<rparr>"

text \<open>\<^verbatim>\<open>/<img[^>]+src=["']([^"']+)["'][^>]*>/g\<close>\<close>

definition htmlRegex :: regex where
  "htmlRegex =
     \<lparr>pieces =
        [Piece (Lit CHR ''<'') Once False, Piece (Lit CHR ''i'') Once False,
         Piece (Lit CHR ''m'') Once False, Piece (Lit CHR ''g'') Once False,
         Piece (NoneOf ''>'') Plus False,
         Piece (Lit CHR ''s'') Once False, Piece (Lit CHR ''r'') Once False,
         Piece (Lit CHR ''c'') Once False, Piece (Lit CHR ''='') Once False,
         Piece (AnyOf [dquote, squote]) Once False,
         Piece (NoneOf [dquote, squote]) Plus True,
         Piece (AnyOf [dquote, squote]) Once False,
         Piece (NoneOf ''>'') Star False,
         Piece (Lit CHR ''>'') Once False],
      ignoreCase = False\<rparr>"

lemma exec_mdRegex_progress:
  assumes "exec mdRegex s i = Some (m, e)"
  shows "i < e \<and> i \<le> length s"
proof -
  have "pieces mdRegex = Piece (Lit CHR ''!'') Once False # tl (pieces mdRegex)"
    by (simp add: mdRegex_def)
  from exec_progress [OF assms this] show ?thesis by simp
qed

lemma exec_htmlRegex_progress:
  assumes "exec htmlRegex s i = Some (m, e)"
  shows "i < e \<and> i \<le> length s"
proof -
  have "pieces htmlRegex = Piece (Lit CHR ''<'') Once False # tl (pieces htmlRegex)"
    by (simp add: htmlRegex_def)
  from exec_progress [OF assms this] show ?thesis by simp
qed

lemma exec_mdRegex_measure:
  "exec mdRegex s i = Some (m, e) \<Longrightarrow> Suc (length s) - e < Suc (length s) - i"
  using exec_mdRegex_progress [of s i m e] by linarith

lemma exec_htmlRegex_measure:
  "exec htmlRegex s i = Some (m, e) \<Longrightarrow> Suc (length s) - e < Suc (length s) - i"
  using exec_htmlRegex_progress [of s i m e] by linarith

record image =
  alt :: string
  path :: string
  fullMatch :: string
  sourceFile :: string
  lineNumber :: nat

definition IMAGE_EXTENSIONS :: "string list" where
  "IMAGE_EXTENSIONS = [''.png'', ''.jpg'', ''.jpeg'', ''.gif'', ''.svg'', ''.webp'']"

text \<open>
  The line of a match: \<^verbatim>\<open>content.substring(0, match.index).split('\n').length\<close>.
\<close>

definition lineOf :: "string \<Rightarrow> nat \<Rightarrow> nat" where
  "lineOf content i = length (split newline (take i content))"

text \<open>
  The first loop of \<^verbatim>\<open>extractImageReferences\<close>:
  \<^verbatim>\<open>while ((match = mdRegex.exec(content)) !== null)\<close>. The state is \<open>lastIndex\<close> of the
  regular expression and the list \<open>images\<close>.
\<close>

function md_loop ::
  "(string \<Rightarrow> string) \<Rightarrow> string \<Rightarrow> string \<Rightarrow> nat \<Rightarrow> image list \<Rightarrow> image list" where
  "md_loop lower content filePath lastIndex images =
     (case exec mdRegex content lastIndex of
        None \<Rightarrow> images
      | Some (match, lastIndex') \<Rightarrow>
          (let imagePath = groups match ! 2 in
           if startsWith imagePath ''http://'' \<or> startsWith imagePath ''https://''
           then md_loop lower content filePath lastIndex' images
           else
             (let ext = toLowerCase lower (extname imagePath) in
              if ext \<in> set IMAGE_EXTENSIONS
              then md_loop lower content filePath lastIndex'
                     (images @
                      [\<lparr>alt = groups match ! 1, path = imagePath,
                        fullMatch = groups match ! 0, sourceFile = filePath,
                        lineNumber = lineOf content (index match)\<rparr>])
              else md_loop lower content filePath lastIndex' images)))"
  by pat_completeness auto
termination
  by (relation "measure (\<lambda>(lower, content, filePath, lastIndex, images). Suc (length content) - lastIndex)")
     (auto dest: exec_mdRegex_measure)

text \<open>
  The second loop: \<^verbatim>\<open>while ((match = htmlRegex.exec(content)) !== null)\<close>, which goes
  on with the list the first loop has filled.
\<close>

function html_loop :: "string \<Rightarrow> string \<Rightarrow> nat \<Rightarrow> image list \<Rightarrow> image list" where
  "html_loop content filePath lastIndex images =
     (case exec htmlRegex content lastIndex of
        None \<Rightarrow> images
      | Some (match, lastIndex') \<Rightarrow>
          (let imagePath = groups match ! 1 in
           if startsWith imagePath ''http''
           then html_loop content filePath lastIndex' images
           else html_loop content filePath lastIndex'
                  (images @
                   [\<lparr>alt = [], path = imagePath,
                     fullMatch = groups match ! 0, sourceFile = filePath,
                     lineNumber = lineOf content (index match)\<rparr>])))"
  by pat_completeness auto
termination
  by (relation "measure (\<lambda>(content, filePath, lastIndex, images). Suc (length content) - lastIndex)")
     (auto dest: exec_htmlRegex_measure)

definition extractImageReferences ::
  "(string \<Rightarrow> string) \<Rightarrow> string \<Rightarrow> string \<Rightarrow> image list" where
  "extractImageReferences lower content filePath =
     (let images = [];
          images = md_loop lower content filePath 0 images;
          images = html_loop content filePath 0 images
      in images)"

subsection \<open>The matches of a scan\<close>

text \<open>
  \<open>scan r s lastIndex\<close> lists the matches that a loop of \<^verbatim>\<open>exec\<close> calls sees, one after
  the other, until \<^verbatim>\<open>exec\<close> returns \<^verbatim>\<open>null\<close>. (A loop that does not move forward, on an
  empty match, is cut after that match; the two regular expressions of the extractor never
  match the empty string, see \<open>scan_Some\<close> and \<open>exec_progress\<close>.) \<open>md_image\<close> and
  \<open>html_image\<close> are the bodies of the two loops: what one match adds to the list.
\<close>

function scan :: "regex \<Rightarrow> string \<Rightarrow> nat \<Rightarrow> rmatch list" where
  "scan r s lastIndex =
     (case exec r s lastIndex of
        None \<Rightarrow> []
      | Some (match, lastIndex') \<Rightarrow>
          if lastIndex < lastIndex' then match # scan r s lastIndex' else [match])"
  by pat_completeness auto
termination
  by (relation "measure (\<lambda>(r, s, lastIndex). Suc (length s) - lastIndex)")
     (auto dest!: exec_Some)


definition md_image ::
  "(string \<Rightarrow> string) \<Rightarrow> string \<Rightarrow> string \<Rightarrow> rmatch \<Rightarrow> image list" where
  "md_image lower content filePath match =
     (let imagePath = groups match ! 2 in
      if startsWith imagePath ''http://'' \<or> startsWith imagePath ''https://'' then []
      else if toLowerCase lower (extname imagePath) \<in> set IMAGE_EXTENSIONS
      then [\<lparr>alt = groups match ! 1, path = imagePath, fullMatch = groups match ! 0,
             sourceFile = filePath, lineNumber = lineOf content (index match)\<rparr>]
      else [])"

definition html_image :: "string \<Rightarrow> string \<Rightarrow> rmatch \<Rightarrow> image list" where
  "html_image content filePath match =
     (let imagePath = groups match ! 1 in
      if startsWith imagePath ''http'' then []
      else [\<lparr>alt = [], path = imagePath, fullMatch = groups match ! 0,
             sourceFile = filePath, lineNumber = lineOf content (index match)\<rparr>])"

text \<open>
  The references of each form beside the offset at which their match starts, in the order
  in which they are pushed.
\<close>

definition md_occurrences ::
  "(string \<Rightarrow> string) \<Rightarrow> string \<Rightarrow> string \<Rightarrow> (nat \<times> image) list" where
  "md_occurrences lower content filePath =
     concat (map (\<lambda>m. map (Pair (index m)) (md_image lower content filePath m))
               (scan mdRegex content 0))"

definition html_occurrences :: "string \<Rightarrow> string \<Rightarrow> (nat \<times> image) list" where
  "html_occurrences content filePath =
     concat (map (\<lambda>m. map (Pair (index m)) (html_image content filePath m))
               (scan htmlRegex content 0))"

definition occurrences ::
  "(string \<Rightarrow> string) \<Rightarrow> string \<Rightarrow> string \<Rightarrow> (nat \<times> image) list" where
  "occurrences lower content filePath =
     md_occurrences lower content filePath @ html_occurrences content filePath"

text \<open>
  An example document: an \<^verbatim>\<open>img\<close> tag on the first line and a markdown image on the
  second.
\<close>

definition doc_html_first :: string where
  "doc_html_first =
     ''<img src='' @ [dquote] @ ''a.png'' @ [dquote] @ ''>'' @ [newline] @ ''![x](b.png)''"





section \<open>Classified references\<close>

record classified = image +
  category :: category
  needsReplacement :: bool

text \<open>
  \<^verbatim>\<open>analyzeFile\<close>, after the file has been read: \<open>content\<close> is the text of the file
  \<open>filePath\<close>.
\<close>

definition analyzeFile ::
  "(string \<Rightarrow> string) \<Rightarrow> string \<Rightarrow> string \<Rightarrow> classified list" where
  "analyzeFile lower content filePath =
     map (\<lambda>img. \<lparr>alt = alt img, path = path img, fullMatch = fullMatch img,
                  sourceFile = sourceFile img, lineNumber = lineNumber img,
                  category = categorizeScreenshot lower (path img),
                  needsReplacement = isCamundaSpecific lower (path img)\<rparr>)
       (extractImageReferences lower content filePath)"

section \<open>The report\<close>

text \<open>
  A JavaScript object with string keys is an association list in insertion order:
  \<open>obj_get\<close> reads a key, \<open>obj_set\<close> writes one, in place when the key is there and at the
  end when it is new.
\<close>

definition obj_get :: "('k \<times> 'v) list \<Rightarrow> 'k \<Rightarrow> 'v option" where
  "obj_get obj k = map_of obj k"

fun obj_set :: "('k \<times> 'v) list \<Rightarrow> 'k \<Rightarrow> 'v \<Rightarrow> ('k \<times> 'v) list" where
  "obj_set [] k v = [(k, v)]"
| "obj_set ((k', v') # kvs) k v =
     (if k' = k then (k', v) # kvs else (k', v') # obj_set kvs k v)"

text \<open>\<^verbatim>\<open>[...new Set(xs)]\<close>: the elements of \<open>xs\<close> in the order they first occur.\<close>

definition set_add :: "'a list \<Rightarrow> 'a \<Rightarrow> 'a list" where
  "set_add seen x = (if x \<in> set seen then seen else seen @ [x])"

definition new_Set :: "'a list \<Rightarrow> 'a list" where
  "new_Set xs = foldl set_add [] xs"

datatype error = TypeError

record location =
  file_l :: string
  line :: nat

record plan_entry =
  imagePath :: string
  category_e :: category
  referencedIn :: "location list"

record stats =
  total_c :: nat
  needsReplacement_c :: nat

record summary =
  total :: nat
  needsReplacement_s :: nat
  byCategory_s :: "(category \<times> stats) list"

record report =
  summary :: summary
  byCategory :: "(category \<times> classified list) list"
  replacementPlan :: "plan_entry list"

text \<open>Group by category. Reading a key that is not there and pushing to it is a TypeError.\<close>

fun group_loop ::
  "classified list \<Rightarrow> (category \<times> classified list) list \<Rightarrow>
     error + (category \<times> classified list) list" where
  "group_loop [] byCat = Inr byCat"
| "group_loop (img # rest) byCat =
     (let byCat1 = (if obj_get byCat (category img) = None
                    then obj_set byCat (category img) []
                    else byCat)
      in case obj_get byCat1 (category img) of
           None \<Rightarrow> Inl TypeError
         | Some imgs \<Rightarrow> group_loop rest (obj_set byCat1 (category img) (imgs @ [img])))"

text \<open>Calculate stats per category.\<close>

fun stats_loop ::
  "(category \<times> classified list) list \<Rightarrow> (category \<times> stats) list \<Rightarrow>
     (category \<times> stats) list" where
  "stats_loop [] acc = acc"
| "stats_loop ((cat, images) # rest) acc =
     stats_loop rest
       (obj_set acc cat
          \<lparr>total_c = length images,
           needsReplacement_c = length (filter needsReplacement images)\<rparr>)"

text \<open>
  Build the replacement plan. \<^verbatim>\<open>references[0].category\<close> is a TypeError when
  \<open>references\<close> is empty.
\<close>

fun plan_loop ::
  "classified list \<Rightarrow> string list \<Rightarrow> plan_entry list \<Rightarrow> error + plan_entry list" where
  "plan_loop toReplace [] plan = Inr plan"
| "plan_loop toReplace (imagePath' # rest) plan =
     (let references = filter (\<lambda>i. path i = imagePath') toReplace
      in case references of
           [] \<Rightarrow> Inl TypeError
         | r0 # _ \<Rightarrow>
             plan_loop toReplace rest
               (plan @
                [\<lparr>imagePath = imagePath', category_e = category r0,
                  referencedIn =
                    map (\<lambda>r. \<lparr>file_l = sourceFile r, line = lineNumber r\<rparr>) references\<rparr>]))"

definition generateReport :: "classified list \<Rightarrow> error + report" where
  "generateReport allImages =
     (case group_loop allImages [] of
        Inl e \<Rightarrow> Inl e
      | Inr byCat \<Rightarrow>
          (let toReplace = filter needsReplacement allImages;
               uniquePaths = new_Set (map path toReplace)
           in case plan_loop toReplace uniquePaths [] of
                Inl e \<Rightarrow> Inl e
              | Inr plan \<Rightarrow>
                  Inr \<lparr>summary =
                         \<lparr>total = length allImages,
                          needsReplacement_s = length (filter needsReplacement allImages),
                          byCategory_s = stats_loop byCat []\<rparr>,
                       byCategory = byCat,
                       replacementPlan = plan\<rparr>))"

section \<open>Properties of the categorizer\<close>

lemma toUpperChar_toLowerChar: "toUpperChar (toLowerChar c) = toUpperChar c"
  by (auto simp: toUpperChar_def toLowerChar_def Let_def)

lemma toLowerCase_cases:
  "toLowerCase lower s = (if list_all isAscii s then map toLowerChar s else lower s)"
  by (rule toLowerCase_def)

lemma contains_i_toLowerCase_ascii:
  "list_all isAscii p \<Longrightarrow> contains_i w (toLowerCase lower p) = contains_i w p"
  by (simp add: toLowerCase_def contains_i_def comp_def toUpperChar_toLowerChar)

lemma match_pieces_word:
  "match_pieces ic (map (\<lambda>c. Piece (Lit c) Once False) w) s =
     (if prefix (map (canon ic) w) (map (canon ic) s) then Some ([], length w) else None)"
  by (induction w arbitrary: s) (auto split: list.splits)

lemma exec_None_iff:
  "exec r s i = None \<longleftrightarrow>
     (\<forall>j. i \<le> j \<and> j \<le> length s \<longrightarrow>
        match_pieces (ignoreCase r) (pieces r) (drop j s) = None)"
proof (induction r s i rule: exec.induct)
  case (1 r s lastIndex)
  show ?case
  proof (cases "length s < lastIndex")
    case True
    then show ?thesis by (subst exec.simps) auto
  next
    case False
    show ?thesis
    proof (cases "match_pieces (ignoreCase r) (pieces r) (drop lastIndex s)")
      case None
      have "exec r s lastIndex = exec r s (Suc lastIndex)"
        using False None by (subst exec.simps) simp
      also have "\<dots> = None \<longleftrightarrow>
          (\<forall>j. Suc lastIndex \<le> j \<and> j \<le> length s \<longrightarrow>
             match_pieces (ignoreCase r) (pieces r) (drop j s) = None)"
        by (rule "1.IH" [OF False None])
      also have "\<dots> \<longleftrightarrow>
          (\<forall>j. lastIndex \<le> j \<and> j \<le> length s \<longrightarrow>
             match_pieces (ignoreCase r) (pieces r) (drop j s) = None)"
        using None by (metis Suc_leI le_neq_implies_less Suc_leD)
      finally show ?thesis .
    next
      case (Some a)
      then have "exec r s lastIndex \<noteq> None"
        using False by (subst exec.simps) (auto split: prod.splits)
      moreover have "\<not> (\<forall>j. lastIndex \<le> j \<and> j \<le> length s \<longrightarrow>
             match_pieces (ignoreCase r) (pieces r) (drop j s) = None)"
        using Some False by (intro notI) (auto dest: spec [of _ lastIndex])
      ultimately show ?thesis by blast
    qed
  qed
qed

lemma sublist_drop_prefix:
  "sublist xs ys \<longleftrightarrow> (\<exists>j \<le> length ys. prefix xs (drop j ys))"
proof
  assume "sublist xs ys"
  then obtain ps ss where "ys = ps @ xs @ ss" by (auto simp: sublist_def)
  then have "length ps \<le> length ys" "prefix xs (drop (length ps) ys)" by simp_all
  then show "\<exists>j \<le> length ys. prefix xs (drop j ys)" by blast
next
  assume "\<exists>j \<le> length ys. prefix xs (drop j ys)"
  then obtain j zs where "drop j ys = xs @ zs" by (auto simp: prefix_def)
  then have "ys = take j ys @ xs @ zs" by (metis append_take_drop_id)
  then show "sublist xs ys" by (auto simp: sublist_def)
qed

lemma canon_True: "canon True = toUpperChar"
  by (rule ext) (simp add: canon_def)

lemma test_word_i: "test (word_i w) s \<longleftrightarrow> contains_i w s"
proof -
  have "test (word_i w) s \<longleftrightarrow>
      (\<exists>j. j \<le> length s \<and>
         match_pieces True (map (\<lambda>c. Piece (Lit c) Once False) w) (drop j s) \<noteq> None)"
    by (simp add: test_def exec_None_iff word_i_def)
  also have "\<dots> \<longleftrightarrow>
      (\<exists>j. j \<le> length s \<and> prefix (map toUpperChar w) (map toUpperChar (drop j s)))"
    by (auto simp: match_pieces_word canon_True)
  also have "\<dots> \<longleftrightarrow> (\<exists>j \<le> length (map toUpperChar s).
      prefix (map toUpperChar w) (drop j (map toUpperChar s)))"
    by (simp add: drop_map)
  finally show ?thesis by (simp add: contains_i_def sublist_drop_prefix)
qed

lemma patterns_loop_ex: "patterns_loop ps s \<longleftrightarrow> (\<exists>pat \<in> set ps. test pat s)"
  by (induction ps) auto

lemma categories_loop_find:
  "categories_loop cats s =
     (case find (\<lambda>(c, cfg). \<exists>pat \<in> set (patterns cfg). test pat s) cats of
        None \<Rightarrow> Other
      | Some (c, cfg) \<Rightarrow> c)"
  by (induction cats s rule: categories_loop.induct) (auto simp: patterns_loop_ex)

text \<open>
  Claim C6. \<open>categorizeScreenshot\<close> is a function of the path alone (its patterns have no
  \<^verbatim>\<open>g\<close> flag, so \<^verbatim>\<open>test\<close> keeps no state between calls). It lower-cases the path, with
  the library's case mapping when the path has a non-ASCII character, and returns the first
  category, in the order cockpit, tasklist, admin, welcome, modeler, other, one of whose
  patterns matches the lower-cased path, and \<open>Other\<close> when there is none. Every pattern is a
  word and matches the strings that contain the word, letter case ignored; for an ASCII
  path that is the same as the path itself containing the word, letter case ignored.
\<close>

theorem categorize_first_match:
  "categorizeScreenshot lower p =
     (case find (\<lambda>(c, cfg). \<exists>pat \<in> set (patterns cfg). test pat (toLowerCase lower p))
             CATEGORIES of
        None \<Rightarrow> Other
      | Some (c, cfg) \<Rightarrow> c) \<and>
   toLowerCase lower p = (if list_all isAscii p then map toLowerChar p else lower p) \<and>
   map fst CATEGORIES = [Cockpit, Tasklist, Admin, Welcome, Modeler, Other] \<and>
   (\<forall>(c, cfg) \<in> set CATEGORIES. \<forall>pat \<in> set (patterns cfg).
      \<exists>w. pat = word_i w \<and> (\<forall>s. test pat s = contains_i w s)) \<and>
   (list_all isAscii p \<longrightarrow> (\<forall>w. contains_i w (toLowerCase lower p) = contains_i w p))"
proof (intro conjI)
  show "categorizeScreenshot lower p =
     (case find (\<lambda>(c, cfg). \<exists>pat \<in> set (patterns cfg). test pat (toLowerCase lower p))
             CATEGORIES of
        None \<Rightarrow> Other
      | Some (c, cfg) \<Rightarrow> c)"
    by (simp only: categorizeScreenshot_def categories_loop_find)
  show "toLowerCase lower p = (if list_all isAscii p then map toLowerChar p else lower p)"
    by (rule toLowerCase_cases)
  show "map fst CATEGORIES = [Cockpit, Tasklist, Admin, Welcome, Modeler, Other]"
    by (simp add: CATEGORIES_def)
  show "\<forall>(c, cfg) \<in> set CATEGORIES. \<forall>pat \<in> set (patterns cfg).
      \<exists>w. pat = word_i w \<and> (\<forall>s. test pat s = contains_i w s)"
    by (auto simp: CATEGORIES_def test_word_i)
  show "list_all isAscii p \<longrightarrow> (\<forall>w. contains_i w (toLowerCase lower p) = contains_i w p)"
    by (simp add: contains_i_toLowerCase_ascii)
qed

theorem categorize_first_match_witness:
  "categorizeScreenshot lower_sample ''images/Task-Dashboard.png'' = Cockpit \<and>
   categorizeScreenshot lower_sample (''tas'' @ kelvin @ ''-list.png'') = Tasklist \<and>
   categorizeScreenshot lower_sample ''images/logo.png'' = Other"
proof -
  have "find (\<lambda>(c, cfg). \<exists>pat \<in> set (patterns cfg).
            test pat (toLowerCase lower_sample ''images/Task-Dashboard.png'')) CATEGORIES =
        Some (CATEGORIES ! 0)"
    by code_simp
  moreover have "fst (CATEGORIES ! 0) = Cockpit"
    by (simp add: CATEGORIES_def)
  moreover have "find (\<lambda>(c, cfg). \<exists>pat \<in> set (patterns cfg).
            test pat (toLowerCase lower_sample (''tas'' @ kelvin @ ''-list.png''))) CATEGORIES =
        Some (CATEGORIES ! 1)"
    by code_simp
  moreover have "fst (CATEGORIES ! 1) = Tasklist"
    by (simp add: CATEGORIES_def)
  moreover have "find (\<lambda>(c, cfg). \<exists>pat \<in> set (patterns cfg).
            test pat (toLowerCase lower_sample ''images/logo.png'')) CATEGORIES = None"
    by code_simp
  ultimately show ?thesis
    using categorize_first_match
        [where lower = lower_sample and p = "''images/Task-Dashboard.png''", THEN conjunct1]
      categorize_first_match
        [where lower = lower_sample and p = "''tas'' @ kelvin @ ''-list.png''", THEN conjunct1]
      categorize_first_match
        [where lower = lower_sample and p = "''images/logo.png''", THEN conjunct1]
    by (simp add: case_prod_beta)
qed

text \<open>
  Claim C7. \<open>isCamundaSpecific\<close> takes the path only, not the category. It is true exactly
  when the lower-cased path (lower-cased with the library's case mapping when the path has a
  non-ASCII character) contains one of the words of \<open>CAMUNDA_PATTERNS\<close>, letter case
  ignored; for an ASCII path that is the same as the path itself containing one of the
  words, letter case ignored. The path \<^verbatim>\<open>images/cockpit-dashboard.png\<close> is flagged.
\<close>

theorem flag_iff_legacy_pattern:
  "(isCamundaSpecific lower p \<longleftrightarrow>
      (\<exists>pattern \<in> set CAMUNDA_PATTERNS. test pattern (toLowerCase lower p))) \<and>
   (isCamundaSpecific lower p \<longleftrightarrow>
      (\<exists>w \<in> set CAMUNDA_WORDS. contains_i w (toLowerCase lower p))) \<and>
   toLowerCase lower p = (if list_all isAscii p then map toLowerChar p else lower p) \<and>
   (list_all isAscii p \<longrightarrow>
      (isCamundaSpecific lower p \<longleftrightarrow> (\<exists>w \<in> set CAMUNDA_WORDS. contains_i w p))) \<and>
   CAMUNDA_PATTERNS = map word_i CAMUNDA_WORDS \<and>
   isCamundaSpecific lower ''images/cockpit-dashboard.png''"
proof (intro conjI)
  show "isCamundaSpecific lower p \<longleftrightarrow>
      (\<exists>pattern \<in> set CAMUNDA_PATTERNS. test pattern (toLowerCase lower p))"
    by (simp add: isCamundaSpecific_def list_ex_iff)
  show w: "isCamundaSpecific lower p \<longleftrightarrow>
      (\<exists>w \<in> set CAMUNDA_WORDS. contains_i w (toLowerCase lower p))"
    by (simp add: isCamundaSpecific_def CAMUNDA_PATTERNS_def list_ex_iff test_word_i)
  show "toLowerCase lower p = (if list_all isAscii p then map toLowerChar p else lower p)"
    by (rule toLowerCase_cases)
  show "list_all isAscii p \<longrightarrow>
      (isCamundaSpecific lower p \<longleftrightarrow> (\<exists>w \<in> set CAMUNDA_WORDS. contains_i w p))"
    by (simp add: w contains_i_toLowerCase_ascii)
  show "CAMUNDA_PATTERNS = map word_i CAMUNDA_WORDS"
    by (rule CAMUNDA_PATTERNS_def)
  show "isCamundaSpecific lower ''images/cockpit-dashboard.png''"
    by code_simp
qed

theorem flag_iff_legacy_pattern_witness:
  "isCamundaSpecific lower_sample ''docs/Batch-View.PNG'' \<and>
   isCamundaSpecific lower_sample (''coc'' @ kelvin @ ''pit.png'') \<and>
   \<not> isCamundaSpecific lower_sample ''assets/logo.svg''"
proof -
  have a: "list_all isAscii ''docs/Batch-View.PNG''" "list_all isAscii ''assets/logo.svg''"
    by code_simp+
  have "\<exists>w \<in> set CAMUNDA_WORDS. contains_i w ''docs/Batch-View.PNG''"
    by code_simp
  moreover have "\<exists>w \<in> set CAMUNDA_WORDS.
      contains_i w (toLowerCase lower_sample (''coc'' @ kelvin @ ''pit.png''))"
    by code_simp
  moreover have "\<not> (\<exists>w \<in> set CAMUNDA_WORDS. contains_i w ''assets/logo.svg'')"
    by code_simp
  ultimately show ?thesis
    using flag_iff_legacy_pattern
        [where lower = lower_sample and p = "''docs/Batch-View.PNG''"]
      flag_iff_legacy_pattern
        [where lower = lower_sample and p = "''coc'' @ kelvin @ ''pit.png''"]
      flag_iff_legacy_pattern
        [where lower = lower_sample and p = "''assets/logo.svg''"]
      a
    by blast
qed

section \<open>Properties of the extractor\<close>

declare scan.simps [simp del]
declare md_loop.simps [simp del]
declare html_loop.simps [simp del]

lemma scan_None: "exec r s i = None \<Longrightarrow> scan r s i = []"
  by (subst scan.simps) simp

lemma scan_Some:
  "exec r s i = Some (m, e) \<Longrightarrow> i < e \<Longrightarrow> scan r s i = m # scan r s e"
  by (subst scan.simps) simp

lemma md_loop_scan:
  "md_loop lower content filePath i images =
     images @ concat (map (md_image lower content filePath) (scan mdRegex content i))"
proof (induction lower content filePath i images rule: md_loop.induct)
  case (1 lower content filePath lastIndex images)
  show ?case
  proof (cases "exec mdRegex content lastIndex")
    case None
    then show ?thesis
      by (subst md_loop.simps) (simp add: scan_None)
  next
    case (Some a)
    obtain m e where a: "a = (m, e)" by (cases a)
    with Some have ex: "exec mdRegex content lastIndex = Some (m, e)" by simp
    then have "lastIndex < e" using exec_mdRegex_progress by blast
    with ex have sc: "scan mdRegex content lastIndex = m # scan mdRegex content e"
      by (rule scan_Some)
    let ?p = "groups m ! 2"
    let ?rest = "concat (map (md_image lower content filePath) (scan mdRegex content e))"
    consider (external) "startsWith ?p ''http://'' \<or> startsWith ?p ''https://''"
      | (image) "\<not> (startsWith ?p ''http://'' \<or> startsWith ?p ''https://'')"
          "toLowerCase lower (extname ?p) \<in> set IMAGE_EXTENSIONS"
      | (other) "\<not> (startsWith ?p ''http://'' \<or> startsWith ?p ''https://'')"
          "toLowerCase lower (extname ?p) \<notin> set IMAGE_EXTENSIONS"
      by blast
    then show ?thesis
    proof cases
      case external
      have "md_loop lower content filePath lastIndex images = md_loop lower content filePath e images"
        using external by (subst md_loop.simps) (simp add: ex)
      also have "\<dots> = images @ ?rest"
        by (rule "1.IH" (1) [OF Some a [symmetric] refl external])
      also have "md_image lower content filePath m = []"
        using external by (simp add: md_image_def)
      then have "images @ ?rest =
          images @ concat (map (md_image lower content filePath) (scan mdRegex content lastIndex))"
        by (simp add: sc)
      finally show ?thesis .
    next
      case image
      let ?img = "\<lparr>alt = groups m ! 1, path = ?p, fullMatch = groups m ! 0,
                   sourceFile = filePath, lineNumber = lineOf content (index m)\<rparr>"
      have "md_loop lower content filePath lastIndex images =
          md_loop lower content filePath e (images @ [?img])"
        using image by (subst md_loop.simps) (simp add: ex)
      also have "\<dots> = (images @ [?img]) @ ?rest"
        by (rule "1.IH" (2) [OF Some a [symmetric] refl image(1) refl image(2)])
      also have "md_image lower content filePath m = [?img]"
        using image by (simp add: md_image_def)
      then have "(images @ [?img]) @ ?rest =
          images @ concat (map (md_image lower content filePath) (scan mdRegex content lastIndex))"
        by (simp add: sc)
      finally show ?thesis .
    next
      case other
      have "md_loop lower content filePath lastIndex images = md_loop lower content filePath e images"
        using other by (subst md_loop.simps) (simp add: ex)
      also have "\<dots> = images @ ?rest"
        by (rule "1.IH" (3) [OF Some a [symmetric] refl other(1) refl other(2)])
      also have "md_image lower content filePath m = []"
        using other by (simp add: md_image_def)
      then have "images @ ?rest =
          images @ concat (map (md_image lower content filePath) (scan mdRegex content lastIndex))"
        by (simp add: sc)
      finally show ?thesis .
    qed
  qed
qed

lemma html_loop_scan:
  "html_loop content filePath i images =
     images @ concat (map (html_image content filePath) (scan htmlRegex content i))"
proof (induction content filePath i images rule: html_loop.induct)
  case (1 content filePath lastIndex images)
  show ?case
  proof (cases "exec htmlRegex content lastIndex")
    case None
    then show ?thesis
      by (subst html_loop.simps) (simp add: scan_None)
  next
    case (Some a)
    obtain m e where a: "a = (m, e)" by (cases a)
    with Some have ex: "exec htmlRegex content lastIndex = Some (m, e)" by simp
    then have "lastIndex < e" using exec_htmlRegex_progress by blast
    with ex have sc: "scan htmlRegex content lastIndex = m # scan htmlRegex content e"
      by (rule scan_Some)
    let ?p = "groups m ! 1"
    let ?rest = "concat (map (html_image content filePath) (scan htmlRegex content e))"
    show ?thesis
    proof (cases "startsWith ?p ''http''")
      case True
      have "html_loop content filePath lastIndex images = html_loop content filePath e images"
        using True by (subst html_loop.simps) (simp add: ex)
      also have "\<dots> = images @ ?rest"
        by (rule "1.IH" (1) [OF Some a [symmetric] refl True])
      also have "html_image content filePath m = []"
        using True by (simp add: html_image_def)
      then have "images @ ?rest =
          images @ concat (map (html_image content filePath) (scan htmlRegex content lastIndex))"
        by (simp add: sc)
      finally show ?thesis .
    next
      case False
      let ?img = "\<lparr>alt = [], path = ?p, fullMatch = groups m ! 0,
                   sourceFile = filePath, lineNumber = lineOf content (index m)\<rparr>"
      have "html_loop content filePath lastIndex images =
          html_loop content filePath e (images @ [?img])"
        using False by (subst html_loop.simps) (simp add: ex)
      also have "\<dots> = (images @ [?img]) @ ?rest"
        by (rule "1.IH" (2) [OF Some a [symmetric] refl False])
      also have "html_image content filePath m = [?img]"
        using False by (simp add: html_image_def)
      then have "(images @ [?img]) @ ?rest =
          images @ concat (map (html_image content filePath) (scan htmlRegex content lastIndex))"
        by (simp add: sc)
      finally show ?thesis .
    qed
  qed
qed

lemma extractImageReferences_scan:
  "extractImageReferences lower content filePath =
     concat (map (md_image lower content filePath) (scan mdRegex content 0)) @
     concat (map (html_image content filePath) (scan htmlRegex content 0))"
  by (simp add: extractImageReferences_def md_loop_scan html_loop_scan)

text \<open>The matches of a scan start at increasing offsets, none before \<open>lastIndex\<close>.\<close>

lemma scan_index:
  assumes "pieces r = Piece cs Once cap # ps"
  shows "sorted_wrt (<) (map index (scan r s i)) \<and> (\<forall>m \<in> set (scan r s i). i \<le> index m)"
  using assms
proof (induction r s i rule: scan.induct)
  case (1 r s lastIndex)
  show ?case
  proof (cases "exec r s lastIndex")
    case None
    then show ?thesis by (simp add: scan_None)
  next
    case (Some a)
    obtain m e where a: "a = (m, e)" by (cases a)
    with Some have ex: "exec r s lastIndex = Some (m, e)" by simp
    from exec_progress [OF ex "1.prems"] have lt: "lastIndex < e" "index m < e" by simp_all
    from exec_Some [OF ex] have le: "lastIndex \<le> index m" by simp
    from ex lt have sc: "scan r s lastIndex = m # scan r s e" by (simp add: scan_Some)
    from "1.IH" [OF Some a [symmetric] lt(1) "1.prems"]
    have "sorted_wrt (<) (map index (scan r s e))" "\<forall>m' \<in> set (scan r s e). e \<le> index m'"
      by simp_all
    with lt le show ?thesis by (auto simp: sc)
  qed
qed

lemma split_length: "length (split sep s) = Suc (length (filter (\<lambda>c. c = sep) s))"
  by (induction s) (auto split: list.splits)

lemma lineOf_count: "lineOf content i = 1 + length (filter (\<lambda>c. c = newline) (take i content))"
  by (simp add: lineOf_def split_length)

lemma md_image_length: "length (md_image lower content filePath m) \<le> 1"
  by (simp add: md_image_def Let_def)

lemma html_image_length: "length (html_image content filePath m) \<le> 1"
  by (simp add: html_image_def Let_def)

lemma snd_tagged: "map snd (concat (map (\<lambda>m. map (Pair (index m)) (g m)) ms)) = concat (map g ms)"
  by (induction ms) (simp_all add: comp_def)

lemma fst_tagged_subset:
  "set (map fst (concat (map (\<lambda>m. map (Pair (index m)) (g m)) ms))) \<subseteq> index ` set ms"
  by (induction ms) auto

lemma sorted_tagged:
  assumes "sorted_wrt (<) (map index ms)" and "\<And>m. length (g m) \<le> 1"
  shows "sorted_wrt (<) (map fst (concat (map (\<lambda>m. map (Pair (index m)) (g m)) ms)))"
  using assms(1)
proof (induction ms)
  case Nil
  then show ?case by simp
next
  case (Cons m ms)
  let ?rest = "map fst (concat (map (\<lambda>m. map (Pair (index m)) (g m)) ms))"
  from Cons have rest: "sorted_wrt (<) ?rest" by simp
  from Cons.prems have "\<forall>i \<in> index ` set ms. index m < i" by simp
  with fst_tagged_subset [of g ms] have gt: "\<forall>i \<in> set ?rest. index m < i" by blast
  have "g m = [] \<or> (\<exists>x. g m = [x])"
    using assms(2) [of m] by (cases "g m") auto
  then show ?case
    using rest gt by auto
qed

lemma scan_match:
  "m \<in> set (scan r s i) \<Longrightarrow>
     index m \<le> length s \<and>
     (\<exists>caps n. match_pieces (ignoreCase r) (pieces r) (drop (index m) s) = Some (caps, n) \<and>
        groups m = take n (drop (index m) s) # caps)"
proof (induction r s i rule: scan.induct)
  case (1 r s lastIndex)
  show ?case
  proof (cases "exec r s lastIndex")
    case None
    with "1.prems" show ?thesis by (simp add: scan_None)
  next
    case (Some a)
    obtain m' e where a: "a = (m', e)" by (cases a)
    with Some have ex: "exec r s lastIndex = Some (m', e)" by simp
    from "1.prems" ex have "m = m' \<or> (lastIndex < e \<and> m \<in> set (scan r s e))"
      by (subst (asm) scan.simps) (auto split: if_splits)
    then show ?thesis
    proof
      assume "m = m'"
      with exec_Some [OF ex] show ?thesis by blast
    next
      assume "lastIndex < e \<and> m \<in> set (scan r s e)"
      then show ?thesis using "1.IH" [OF Some a [symmetric]] by blast
    qed
  qed
qed

lemma scan_fullMatch:
  assumes "m \<in> set (scan r s i)"
  shows "groups m ! 0 = take (length (groups m ! 0)) (drop (index m) s)"
proof -
  from scan_match [OF assms] obtain caps n where
    "match_pieces (ignoreCase r) (pieces r) (drop (index m) s) = Some (caps, n)"
    and g: "groups m = take n (drop (index m) s) # caps"
    by blast
  then have "n \<le> length (drop (index m) s)" by (auto dest: match_pieces_length)
  with g show ?thesis by simp
qed

text \<open>
  A match has one entry for the whole match and one for each capturing group, so
  \<^verbatim>\<open>match[1]\<close> and \<^verbatim>\<open>match[2]\<close> of the markdown form and \<^verbatim>\<open>match[1]\<close> of the tag form
  are always there.
\<close>

lemma match_pieces_captures:
  "match_pieces ic ps s = Some (caps, n) \<Longrightarrow> length caps = length (filter captures ps)"
proof (induction ic ps s arbitrary: caps n rule: match_pieces.induct)
  case (1 ic s)
  then show ?case by simp
next
  case (2 ic cs cap ps s)
  then show ?case by (fastforce split: list.splits if_splits)
next
  case (3 ic cs cap ps s)
  from "3.prems" obtain k where
    "map_option (\<lambda>(caps, n). ((if cap then [take k s] else []) @ caps, k + n))
       (match_pieces ic ps (drop k s)) = Some (caps, n)"
    by (auto dest!: try_counts_Some)
  then obtain caps' n' where "match_pieces ic ps (drop k s) = Some (caps', n')"
    "caps = (if cap then [take k s] else []) @ caps'"
    by auto
  with "3.IH" show ?case by fastforce
next
  case (4 ic cs cap ps s)
  from "4.prems" obtain k where
    "map_option (\<lambda>(caps, n). ((if cap then [take k s] else []) @ caps, k + n))
       (match_pieces ic ps (drop k s)) = Some (caps, n)"
    by (auto dest!: try_counts_Some)
  then obtain caps' n' where "match_pieces ic ps (drop k s) = Some (caps', n')"
    "caps = (if cap then [take k s] else []) @ caps'"
    by auto
  with "4.IH" show ?case by fastforce
qed

lemma scan_groups_length:
  "m \<in> set (scan r s i) \<Longrightarrow> length (groups m) = Suc (length (filter captures (pieces r)))"
  by (auto dest!: scan_match match_pieces_captures)

lemma scan_mdRegex_groups: "m \<in> set (scan mdRegex s i) \<Longrightarrow> length (groups m) = 3"
  by (drule scan_groups_length) (simp add: mdRegex_def)

lemma scan_htmlRegex_groups: "m \<in> set (scan htmlRegex s i) \<Longrightarrow> length (groups m) = 2"
  by (drule scan_groups_length) (simp add: htmlRegex_def)

lemma md_occurrences_at:
  assumes "(i, r) \<in> set (md_occurrences lower content filePath)"
  shows "lineNumber r = lineOf content i \<and>
         fullMatch r = take (length (fullMatch r)) (drop i content)"
proof -
  from assms obtain m where m: "m \<in> set (scan mdRegex content 0)"
    and r: "r \<in> set (md_image lower content filePath m)" and i: "i = index m"
    by (auto simp: md_occurrences_def)
  from r have "lineNumber r = lineOf content (index m)" "fullMatch r = groups m ! 0"
    by (auto simp: md_image_def Let_def split: if_splits)
  with scan_fullMatch [OF m] i show ?thesis by simp
qed

lemma html_occurrences_at:
  assumes "(i, r) \<in> set (html_occurrences content filePath)"
  shows "lineNumber r = lineOf content i \<and>
         fullMatch r = take (length (fullMatch r)) (drop i content) \<and> alt r = []"
proof -
  from assms obtain m where m: "m \<in> set (scan htmlRegex content 0)"
    and r: "r \<in> set (html_image content filePath m)" and i: "i = index m"
    by (auto simp: html_occurrences_def)
  from r have "lineNumber r = lineOf content (index m)" "fullMatch r = groups m ! 0" "alt r = []"
    by (auto simp: html_image_def Let_def split: if_splits)
  with scan_fullMatch [OF m] i show ?thesis by simp
qed

lemma md_occurrences_snd: "map snd (md_occurrences lower content filePath) = md_loop lower content filePath 0 []"
  by (simp add: md_occurrences_def snd_tagged md_loop_scan)

lemma html_occurrences_snd:
  "map snd (html_occurrences content filePath) = html_loop content filePath 0 []"
  by (simp add: html_occurrences_def snd_tagged html_loop_scan)

lemma extractImageReferences_append:
  "extractImageReferences lower content filePath =
     md_loop lower content filePath 0 [] @ html_loop content filePath 0 []"
  by (simp add: extractImageReferences_scan md_loop_scan html_loop_scan)

lemma occurrences_snd:
  "map snd (occurrences lower content filePath) = extractImageReferences lower content filePath"
  by (simp add: occurrences_def md_occurrences_snd html_occurrences_snd
      extractImageReferences_append)























text \<open>
  Claim C2, as the code has it. The extractor runs two scans, one after the other: the
  references of the markdown form come first, those of the \<^verbatim>\<open>img\<close> tags after them. Within
  each form the references are in document order (their matches start at increasing
  offsets), and every reference's \<open>fullMatch\<close> is the text that stands at its offset.
\<close>

theorem extractor_order_by_form:
  "extractImageReferences lower content filePath =
     map snd (md_occurrences lower content filePath) @ map snd (html_occurrences content filePath) \<and>
   sorted_wrt (<) (map fst (md_occurrences lower content filePath)) \<and>
   sorted_wrt (<) (map fst (html_occurrences content filePath)) \<and>
   (\<forall>(i, r) \<in> set (md_occurrences lower content filePath @ html_occurrences content filePath).
      fullMatch r = take (length (fullMatch r)) (drop i content))"
proof (intro conjI)
  show "extractImageReferences lower content filePath =
     map snd (md_occurrences lower content filePath) @ map snd (html_occurrences content filePath)"
    by (simp add: md_occurrences_snd html_occurrences_snd extractImageReferences_append)
  have "pieces mdRegex = Piece (Lit CHR ''!'') Once False # tl (pieces mdRegex)"
    by (simp add: mdRegex_def)
  then have "sorted_wrt (<) (map index (scan mdRegex content 0))"
    using scan_index by blast
  then show "sorted_wrt (<) (map fst (md_occurrences lower content filePath))"
    unfolding md_occurrences_def by (rule sorted_tagged) (rule md_image_length)
  have "pieces htmlRegex = Piece (Lit CHR ''<'') Once False # tl (pieces htmlRegex)"
    by (simp add: htmlRegex_def)
  then have "sorted_wrt (<) (map index (scan htmlRegex content 0))"
    using scan_index by blast
  then show "sorted_wrt (<) (map fst (html_occurrences content filePath))"
    unfolding html_occurrences_def by (rule sorted_tagged) (rule html_image_length)
  show "\<forall>(i, r) \<in> set (md_occurrences lower content filePath @ html_occurrences content filePath).
      fullMatch r = take (length (fullMatch r)) (drop i content)"
    using md_occurrences_at html_occurrences_at by fastforce
qed

theorem extractor_order_by_form_witness:
  "map fst (md_occurrences lower_sample ''![a](a.png) text ![b](b.png)'' ''guide.md'') = [0, 17] \<and>
   sorted_wrt (<) (map fst (md_occurrences lower_sample ''![a](a.png) text ![b](b.png)'' ''guide.md'')) \<and>
   map fullMatch (extractImageReferences lower_sample ''![a](a.png) text ![b](b.png)'' ''guide.md'') =
     [''![a](a.png)'', ''![b](b.png)'']"
proof -
  let ?c = "''![a](a.png) text ![b](b.png)''"
  have o: "md_occurrences lower_sample ?c ''guide.md'' =
      [(0, \<lparr>alt = ''a'', path = ''a.png'', fullMatch = ''![a](a.png)'',
             sourceFile = ''guide.md'', lineNumber = 1\<rparr>),
       (17, \<lparr>alt = ''b'', path = ''b.png'', fullMatch = ''![b](b.png)'',
              sourceFile = ''guide.md'', lineNumber = 1\<rparr>)]"
    by code_simp
  have h: "html_occurrences ?c ''guide.md'' = []"
    by code_simp
  from extractor_order_by_form
      [where lower = lower_sample and content = ?c and filePath = "''guide.md''"] show ?thesis
    by (simp add: o h)
qed

text \<open>
  The claim C2 itself, that the whole list is in document order, fails on the example
  document: the markdown image at offset 18 comes before the \<^verbatim>\<open>img\<close> tag at offset 0.
\<close>

theorem document_order_counterexample:
  "map snd (occurrences lower_sample doc_html_first ''guide.md'') =
     extractImageReferences lower_sample doc_html_first ''guide.md'' \<and>
   map fst (occurrences lower_sample doc_html_first ''guide.md'') = [18, 0] \<and>
   map path (extractImageReferences lower_sample doc_html_first ''guide.md'') = [''b.png'', ''a.png''] \<and>
   \<not> sorted_wrt (<) (map fst (occurrences lower_sample doc_html_first ''guide.md''))"
  by code_simp

text \<open>
  Claim C3. For the \<^verbatim>\<open>img\<close> tag form the code discards every path that starts with
  \<^verbatim>\<open>http\<close>, not only those that start with \<^verbatim>\<open>http://\<close> or \<^verbatim>\<open>https://\<close>: the tag with the
  local path \<^verbatim>\<open>http-status.png\<close> is matched and gives no reference, while the markdown form
  keeps the same path.
\<close>

theorem html_http_prefix_discarded:
  "map groups (scan htmlRegex (''<img src='' @ [dquote] @ ''http-status.png'' @ [dquote] @ ''>'') 0) =
     [[''<img src='' @ [dquote] @ ''http-status.png'' @ [dquote] @ ''>'', ''http-status.png'']] \<and>
   \<not> startsWith ''http-status.png'' ''http://'' \<and>
   \<not> startsWith ''http-status.png'' ''https://'' \<and>
   extractImageReferences lower (''<img src='' @ [dquote] @ ''http-status.png'' @ [dquote] @ ''>'')
     ''guide.md'' = [] \<and>
   map path (extractImageReferences lower ''![Status](http-status.png)'' ''guide.md'') =
     [''http-status.png'']"
  by code_simp




text \<open>
  Claim C5. The line number of every extracted reference, of either form, is 1 plus the
  number of newline characters before the offset at which its match starts.
\<close>

theorem line_numbers:
  "map snd (occurrences lower content filePath) = extractImageReferences lower content filePath \<and>
   (\<forall>(i, r) \<in> set (occurrences lower content filePath).
      lineNumber r = 1 + length (filter (\<lambda>c. c = newline) (take i content)) \<and>
      fullMatch r = take (length (fullMatch r)) (drop i content))"
proof
  show "map snd (occurrences lower content filePath) = extractImageReferences lower content filePath"
    by (rule occurrences_snd)
  show "\<forall>(i, r) \<in> set (occurrences lower content filePath).
      lineNumber r = 1 + length (filter (\<lambda>c. c = newline) (take i content)) \<and>
      fullMatch r = take (length (fullMatch r)) (drop i content)"
    using md_occurrences_at html_occurrences_at
    by (fastforce simp: occurrences_def lineOf_count)
qed

theorem line_numbers_witness:
  "map (\<lambda>(i, r). (i, lineNumber r)) (occurrences lower_sample doc_html_first ''guide.md'') = [(18, 2), (0, 1)] \<and>
   map lineNumber (extractImageReferences lower_sample doc_html_first ''guide.md'') = [2, 1]"
proof -
  have f: "map fst (occurrences lower_sample doc_html_first ''guide.md'') = [18, 0]"
    by code_simp
  have n18: "1 + length (filter (\<lambda>c. c = newline) (take 18 doc_html_first)) = 2"
    by code_simp
  have n0: "1 + length (filter (\<lambda>c. c = newline) (take 0 doc_html_first)) = 1"
    by simp
  from f obtain r1 r2 where o: "occurrences lower_sample doc_html_first ''guide.md'' = [(18, r1), (0, r2)]"
    by (auto simp: map_eq_Cons_conv)
  from line_numbers
      [where lower = lower_sample and content = doc_html_first and filePath = "''guide.md''"] o n18 n0
  have "lineNumber r1 = 2" "lineNumber r2 = 1"
    and "extractImageReferences lower_sample doc_html_first ''guide.md'' = [r1, r2]"
    by auto
  with o show ?thesis by simp
qed

text \<open>
  Claim C9. Every reference of the \<^verbatim>\<open>img\<close> tag form has an empty alt text, also when the
  tag has an \<^verbatim>\<open>alt\<close> attribute; a reference with a non-empty alt text is one of the markdown
  form.
\<close>

theorem html_alt_empty:
  "extractImageReferences lower content filePath =
     md_loop lower content filePath 0 [] @ html_loop content filePath 0 [] \<and>
   (\<forall>r \<in> set (html_loop content filePath 0 []). alt r = []) \<and>
   (\<forall>r \<in> set (extractImageReferences lower content filePath).
      alt r \<noteq> [] \<longrightarrow> r \<in> set (md_loop lower content filePath 0 []))"
proof -
  have a: "extractImageReferences lower content filePath =
     md_loop lower content filePath 0 [] @ html_loop content filePath 0 []"
    by (rule extractImageReferences_append)
  have b: "\<forall>r \<in> set (html_loop content filePath 0 []). alt r = []"
    using html_occurrences_at [of _ _ content filePath]
    unfolding html_occurrences_snd [symmetric] by fastforce
  from a b show ?thesis by auto
qed

theorem html_alt_empty_witness:
  "map alt (extractImageReferences lower_sample
      (''<img alt='' @ [dquote] @ ''Logo'' @ [dquote] @ '' src='' @ [dquote] @ ''logo.png'' @
       [dquote] @ ''> ![Start](start.png)'') ''guide.md'') = [''Start'', []] \<and>
   map path (html_loop
      (''<img alt='' @ [dquote] @ ''Logo'' @ [dquote] @ '' src='' @ [dquote] @ ''logo.png'' @
       [dquote] @ ''> ![Start](start.png)'') ''guide.md'' 0 []) = [''logo.png'']"
proof -
  let ?c = "''<img alt='' @ [dquote] @ ''Logo'' @ [dquote] @ '' src='' @ [dquote] @ ''logo.png'' @
       [dquote] @ ''> ![Start](start.png)''"
  have m: "map alt (md_loop lower_sample ?c ''guide.md'' 0 []) = [''Start'']"
    by code_simp
  have h: "map path (html_loop ?c ''guide.md'' 0 []) = [''logo.png'']"
    by code_simp
  then obtain r where r: "html_loop ?c ''guide.md'' 0 [] = [r]"
    by (auto simp: map_eq_Cons_conv)
  from html_alt_empty
      [where lower = lower_sample and content = ?c and filePath = "''guide.md''"] r have "alt r = []"
    and "extractImageReferences lower_sample ?c ''guide.md'' = md_loop lower_sample ?c ''guide.md'' 0 [] @ [r]"
    by simp_all
  with m h show ?thesis by simp
qed

section \<open>Properties of the report\<close>

lemma obj_get_obj_set_same: "obj_get (obj_set obj k v) k = Some v"
  by (induction obj) (auto simp: obj_get_def)

lemma obj_set_keys:
  "map fst (obj_set obj k v) = (if obj_get obj k = None then map fst obj @ [k] else map fst obj)"
  by (induction obj) (auto simp: obj_get_def)

lemma obj_set_new: "obj_get obj k = None \<Longrightarrow> obj_set obj k v = obj @ [(k, v)]"
  by (induction obj) (auto simp: obj_get_def split: if_splits)

lemma obj_set_sum_new:
  "obj_get obj k = None \<Longrightarrow>
     sum_list (map (\<lambda>kv. f (snd kv)) (obj_set obj k v)) = sum_list (map (\<lambda>kv. f (snd kv)) obj) + (f v :: nat)"
  by (simp add: obj_set_new)

lemma obj_set_sum_old:
  "obj_get obj k = Some v0 \<Longrightarrow>
     sum_list (map (\<lambda>kv. f (snd kv)) (obj_set obj k v)) + f v0 = sum_list (map (\<lambda>kv. f (snd kv)) obj) + (f v :: nat)"
  by (induction obj) (auto simp: obj_get_def split: if_splits)

lemma group_loop_total: "\<exists>r. group_loop xs byCat = Inr r"
  by (induction xs arbitrary: byCat) (auto simp: obj_get_obj_set_same Let_def)

lemma group_loop_count:
  "group_loop xs byCat = Inr r \<Longrightarrow>
     sum_list (map (\<lambda>kv. length (filter P (snd kv))) r) =
     sum_list (map (\<lambda>kv. length (filter P (snd kv))) byCat) + length (filter P xs)"
proof (induction xs arbitrary: byCat)
  case Nil
  then show ?case by simp
next
  case (Cons img rest)
  let ?f = "\<lambda>imgs. length (filter P imgs)"
  let ?c = "category img"
  show ?case
  proof (cases "obj_get byCat ?c")
    case None
    with Cons.prems have "group_loop rest (obj_set (obj_set byCat ?c []) ?c [img]) = Inr r"
      by (simp add: obj_get_obj_set_same)
    from Cons.IH [OF this]
    have "sum_list (map (\<lambda>kv. ?f (snd kv)) r) =
            sum_list (map (\<lambda>kv. ?f (snd kv)) (obj_set (obj_set byCat ?c []) ?c [img])) + ?f rest" .
    moreover have "sum_list (map (\<lambda>kv. ?f (snd kv)) (obj_set (obj_set byCat ?c []) ?c [img])) + ?f []
       = sum_list (map (\<lambda>kv. ?f (snd kv)) (obj_set byCat ?c [])) + ?f [img]"
      by (rule obj_set_sum_old) (rule obj_get_obj_set_same)
    moreover have "sum_list (map (\<lambda>kv. ?f (snd kv)) (obj_set byCat ?c [])) =
        sum_list (map (\<lambda>kv. ?f (snd kv)) byCat) + ?f []"
      by (rule obj_set_sum_new) (rule None)
    ultimately show ?thesis by simp
  next
    case (Some imgs)
    with Cons.prems have "group_loop rest (obj_set byCat ?c (imgs @ [img])) = Inr r"
      by simp
    from Cons.IH [OF this]
    have "sum_list (map (\<lambda>kv. ?f (snd kv)) r) =
            sum_list (map (\<lambda>kv. ?f (snd kv)) (obj_set byCat ?c (imgs @ [img]))) + ?f rest" .
    moreover have "sum_list (map (\<lambda>kv. ?f (snd kv)) (obj_set byCat ?c (imgs @ [img]))) + ?f imgs
       = sum_list (map (\<lambda>kv. ?f (snd kv)) byCat) + ?f (imgs @ [img])"
      by (rule obj_set_sum_old) (rule Some)
    ultimately show ?thesis by simp
  qed
qed

lemma group_loop_distinct:
  "group_loop xs byCat = Inr r \<Longrightarrow> distinct (map fst byCat) \<Longrightarrow> distinct (map fst r)"
proof (induction xs arbitrary: byCat)
  case Nil
  then show ?case by simp
next
  case (Cons img rest)
  let ?c = "category img"
  show ?case
  proof (cases "obj_get byCat ?c")
    case None
    with Cons.prems have "group_loop rest (obj_set (obj_set byCat ?c []) ?c [img]) = Inr r"
      by (simp add: obj_get_obj_set_same)
    moreover have "distinct (map fst (obj_set (obj_set byCat ?c []) ?c [img]))"
      using Cons.prems(2) None
      by (simp add: obj_set_keys obj_get_obj_set_same) (simp add: obj_get_def map_of_eq_None_iff)
    ultimately show ?thesis by (rule Cons.IH)
  next
    case (Some imgs)
    with Cons.prems have "group_loop rest (obj_set byCat ?c (imgs @ [img])) = Inr r"
      by simp
    moreover have "distinct (map fst (obj_set byCat ?c (imgs @ [img])))"
      using Cons.prems(2) Some by (simp add: obj_set_keys)
    ultimately show ?thesis by (rule Cons.IH)
  qed
qed

lemma stats_loop_map:
  "distinct (map fst byCat) \<Longrightarrow> set (map fst byCat) \<inter> set (map fst acc) = {} \<Longrightarrow>
     stats_loop byCat acc =
       acc @ map (\<lambda>kv. (fst kv, \<lparr>total_c = length (snd kv),
                   needsReplacement_c = length (filter needsReplacement (snd kv))\<rparr>)) byCat"
proof (induction byCat arbitrary: acc)
  case Nil
  then show ?case by simp
next
  case (Cons kv rest)
  obtain c images where kv: "kv = (c, images)" by (cases kv)
  from Cons.prems kv have "obj_get acc c = None"
    by (auto simp: obj_get_def map_of_eq_None_iff)
  then have s: "obj_set acc c v = acc @ [(c, v)]" for v by (rule obj_set_new)
  from Cons.prems kv
  have "distinct (map fst rest)" "set (map fst rest) \<inter> set (map fst (acc @ [(c, v)])) = {}" for v
    by auto
  from Cons.IH [OF this] show ?case by (simp add: kv s)
qed

lemma foldl_set_add_set: "set (foldl set_add acc xs) = set acc \<union> set xs"
  by (induction xs arbitrary: acc) (auto simp: set_add_def)

lemma foldl_set_add_distinct: "distinct acc \<Longrightarrow> distinct (foldl set_add acc xs)"
  by (induction xs arbitrary: acc) (auto simp: set_add_def)

lemma new_Set_set: "set (new_Set xs) = set xs"
  by (simp add: new_Set_def foldl_set_add_set)

lemma new_Set_distinct: "distinct (new_Set xs)"
  by (simp add: new_Set_def foldl_set_add_distinct)

definition entry_rel :: "classified list \<Rightarrow> string \<Rightarrow> plan_entry \<Rightarrow> bool" where
  "entry_rel toReplace p e =
     (imagePath e = p \<and>
      referencedIn e =
        map (\<lambda>r. \<lparr>file_l = sourceFile r, line = lineNumber r\<rparr>)
          (filter (\<lambda>i. path i = p) toReplace) \<and>
      map_option category (find (\<lambda>i. path i = p) toReplace) = Some (category_e e))"

lemma filter_Cons_find: "filter P xs = r0 # rs \<Longrightarrow> find P xs = Some r0"
  by (induction xs) (auto split: if_splits)

lemma plan_loop_Inr:
  "set ps \<subseteq> path ` set toReplace \<Longrightarrow>
     \<exists>es. plan_loop toReplace ps plan = Inr (plan @ es) \<and> list_all2 (entry_rel toReplace) ps es"
proof (induction ps arbitrary: plan)
  case Nil
  then show ?case by simp
next
  case (Cons p rest)
  from Cons.prems obtain x where "x \<in> set toReplace" "path x = p" by auto
  then have "filter (\<lambda>i. path i = p) toReplace \<noteq> []"
    by (auto simp: filter_empty_conv)
  then obtain r0 rs where f: "filter (\<lambda>i. path i = p) toReplace = r0 # rs"
    by (cases "filter (\<lambda>i. path i = p) toReplace") auto
  let ?e = "\<lparr>imagePath = p, category_e = category r0,
             referencedIn = map (\<lambda>r. \<lparr>file_l = sourceFile r, line = lineNumber r\<rparr>) (r0 # rs)\<rparr>"
  have rel: "entry_rel toReplace p ?e"
    by (simp add: entry_rel_def f filter_Cons_find [OF f])
  from Cons.prems have "set rest \<subseteq> path ` set toReplace" by simp
  from Cons.IH [OF this, of "plan @ [?e]"] obtain es where
    "plan_loop toReplace rest (plan @ [?e]) = Inr ((plan @ [?e]) @ es)"
    "list_all2 (entry_rel toReplace) rest es" by blast
  with rel f have "plan_loop toReplace (p # rest) plan = Inr (plan @ (?e # es)) \<and>
      list_all2 (entry_rel toReplace) (p # rest) (?e # es)"
    by simp
  then show ?case by blast
qed

lemma count_by_key:
  "distinct ps \<Longrightarrow>
     sum_list (map (\<lambda>p. length (filter (\<lambda>i. f i = p) xs)) ps) =
     length (filter (\<lambda>i. f i \<in> set ps) xs)"
proof (induction ps)
  case Nil
  then show ?case by simp
next
  case (Cons p ps)
  then have "p \<notin> set ps" by simp
  then have "length (filter (\<lambda>i. f i \<in> set (p # ps)) xs) =
      length (filter (\<lambda>i. f i = p) xs) + length (filter (\<lambda>i. f i \<in> set ps) xs)"
    by (induction xs) auto
  with Cons show ?case by simp
qed

lemma generateReport_Inr:
  "\<exists>byCat plan.
     generateReport xs =
       Inr \<lparr>summary =
              \<lparr>total = length xs,
               needsReplacement_s = length (filter needsReplacement xs),
               byCategory_s =
                 map (\<lambda>kv. (fst kv, \<lparr>total_c = length (snd kv),
                        needsReplacement_c = length (filter needsReplacement (snd kv))\<rparr>)) byCat\<rparr>,
            byCategory = byCat, replacementPlan = plan\<rparr> \<and>
     group_loop xs [] = Inr byCat \<and> distinct (map fst byCat) \<and>
     list_all2 (entry_rel (filter needsReplacement xs))
       (new_Set (map path (filter needsReplacement xs))) plan"
proof -
  obtain byCat where g: "group_loop xs [] = Inr byCat"
    using group_loop_total by blast
  then have d: "distinct (map fst byCat)" by (rule group_loop_distinct) simp
  then have s: "stats_loop byCat [] =
      map (\<lambda>kv. (fst kv, \<lparr>total_c = length (snd kv),
             needsReplacement_c = length (filter needsReplacement (snd kv))\<rparr>)) byCat"
    using stats_loop_map [of byCat "[]"] by simp
  let ?tr = "filter needsReplacement xs"
  have "set (new_Set (map path ?tr)) \<subseteq> path ` set ?tr"
    by (simp add: new_Set_set)
  from plan_loop_Inr [OF this, of "[]"] obtain plan where
    p: "plan_loop ?tr (new_Set (map path ?tr)) [] = Inr plan"
    and r: "list_all2 (entry_rel ?tr) (new_Set (map path ?tr)) plan"
    by auto
  show ?thesis
    using g d r by (simp add: generateReport_def p s Let_def)
qed

text \<open>
  Claim C1. Every report of \<open>generateReport\<close> keeps its counts consistent: each category
  has one entry in the summary, the per-category totals add up to the overall total (the
  number of references), in every category the number of flagged references is at most
  the category's total, and the per-category flagged counts add up to the global flagged
  count. The aggregator never fails.
\<close>

theorem report_counts:
  "\<exists>rep. generateReport allImages = Inr rep \<and>
     total (summary rep) = length allImages \<and>
     needsReplacement_s (summary rep) = length (filter needsReplacement allImages) \<and>
     distinct (map fst (byCategory_s (summary rep))) \<and>
     sum_list (map (\<lambda>(c, st). total_c st) (byCategory_s (summary rep))) = total (summary rep) \<and>
     (\<forall>(c, st) \<in> set (byCategory_s (summary rep)). needsReplacement_c st \<le> total_c st) \<and>
     sum_list (map (\<lambda>(c, st). needsReplacement_c st) (byCategory_s (summary rep))) =
       needsReplacement_s (summary rep)"
proof -
  from generateReport_Inr [of allImages] obtain byCat plan where
    rep: "generateReport allImages =
       Inr \<lparr>summary =
              \<lparr>total = length allImages,
               needsReplacement_s = length (filter needsReplacement allImages),
               byCategory_s =
                 map (\<lambda>kv. (fst kv, \<lparr>total_c = length (snd kv),
                        needsReplacement_c = length (filter needsReplacement (snd kv))\<rparr>)) byCat\<rparr>,
            byCategory = byCat, replacementPlan = plan\<rparr>"
    and g: "group_loop allImages [] = Inr byCat"
    and d: "distinct (map fst byCat)"
    by blast
  have t: "sum_list (map (\<lambda>kv. length (snd kv)) byCat) = length allImages"
    using group_loop_count [OF g, of "\<lambda>_. True"] by simp
  have f: "sum_list (map (\<lambda>kv. length (filter needsReplacement (snd kv))) byCat) =
      length (filter needsReplacement allImages)"
    using group_loop_count [OF g, of needsReplacement] by simp
  show ?thesis
    using d t f by (simp add: rep comp_def case_prod_beta)
qed

theorem report_counts_witness:
  "\<exists>rep. generateReport
       [\<lparr>alt = ''a'', path = ''cockpit.png'', fullMatch = ''![a](cockpit.png)'',
          sourceFile = ''a.md'', lineNumber = 1, category = Cockpit, needsReplacement = True\<rparr>,
        \<lparr>alt = ''b'', path = ''logo.png'', fullMatch = ''![b](logo.png)'',
          sourceFile = ''a.md'', lineNumber = 2, category = Other, needsReplacement = False\<rparr>,
        \<lparr>alt = ''c'', path = ''heatmap.png'', fullMatch = ''![c](heatmap.png)'',
          sourceFile = ''b.md'', lineNumber = 7, category = Cockpit, needsReplacement = False\<rparr>]
       = Inr rep \<and>
     sum_list (map (\<lambda>(c, st). total_c st) (byCategory_s (summary rep))) = 3 \<and>
     sum_list (map (\<lambda>(c, st). needsReplacement_c st) (byCategory_s (summary rep))) = 1"
  using report_counts [of
       "[\<lparr>alt = ''a'', path = ''cockpit.png'', fullMatch = ''![a](cockpit.png)'',
          sourceFile = ''a.md'', lineNumber = 1, category = Cockpit, needsReplacement = True\<rparr>,
        \<lparr>alt = ''b'', path = ''logo.png'', fullMatch = ''![b](logo.png)'',
          sourceFile = ''a.md'', lineNumber = 2, category = Other, needsReplacement = False\<rparr>,
        \<lparr>alt = ''c'', path = ''heatmap.png'', fullMatch = ''![c](heatmap.png)'',
          sourceFile = ''b.md'', lineNumber = 7, category = Cockpit, needsReplacement = False\<rparr>]"]
  by auto

lemma list_all2_entry_rel_paths:
  "list_all2 (entry_rel tr) ps es \<Longrightarrow> map imagePath es = ps"
  by (induction rule: list_all2_induct) (auto simp: entry_rel_def)

lemma list_all2_entry_rel_set:
  "list_all2 (entry_rel tr) ps es \<Longrightarrow> e \<in> set es \<Longrightarrow> entry_rel tr (imagePath e) e"
  by (induction rule: list_all2_induct) (auto simp: entry_rel_def)

lemma distinct_singleton_set:
  assumes "distinct xs" and "set xs = {p}"
  shows "xs = [p]"
proof -
  from assms have "length xs = 1" using distinct_card [of xs] by simp
  then obtain x where "xs = [x]" by (cases xs) auto
  with assms(2) show ?thesis by simp
qed

lemma map_singleton: "map f xs = [p] \<Longrightarrow> \<exists>e. xs = [e] \<and> f e = p"
  by (cases xs) auto

text \<open>
  Claim C8. The replacement plan has exactly one entry for every distinct path among the
  flagged references. The entry's category is the category of the first flagged reference
  with that path, and its locations are the (document, line) pairs of all flagged
  references with that path, in the order of the input.
\<close>

theorem replacement_plan_entries:
  "\<exists>rep. generateReport allImages = Inr rep \<and>
     distinct (map imagePath (replacementPlan rep)) \<and>
     set (map imagePath (replacementPlan rep)) = path ` set (filter needsReplacement allImages) \<and>
     (\<forall>e \<in> set (replacementPlan rep).
        referencedIn e =
          map (\<lambda>r. \<lparr>file_l = sourceFile r, line = lineNumber r\<rparr>)
            (filter (\<lambda>r. path r = imagePath e) (filter needsReplacement allImages)) \<and>
        map_option category
          (find (\<lambda>r. path r = imagePath e) (filter needsReplacement allImages)) =
          Some (category_e e))"
proof -
  let ?tr = "filter needsReplacement allImages"
  from generateReport_Inr [of allImages] obtain rep where
    rep: "generateReport allImages = Inr rep"
    and r: "list_all2 (entry_rel ?tr) (new_Set (map path ?tr)) (replacementPlan rep)"
    by force
  from r have p: "map imagePath (replacementPlan rep) = new_Set (map path ?tr)"
    by (rule list_all2_entry_rel_paths)
  have "distinct (map imagePath (replacementPlan rep))"
    by (simp only: p new_Set_distinct)
  moreover have "set (map imagePath (replacementPlan rep)) = path ` set ?tr"
    by (simp only: p new_Set_set) simp
  moreover have "\<forall>e \<in> set (replacementPlan rep).
        referencedIn e =
          map (\<lambda>r. \<lparr>file_l = sourceFile r, line = lineNumber r\<rparr>)
            (filter (\<lambda>r. path r = imagePath e) ?tr) \<and>
        map_option category (find (\<lambda>r. path r = imagePath e) ?tr) = Some (category_e e)"
    using list_all2_entry_rel_set [OF r] by (auto simp: entry_rel_def)
  ultimately show ?thesis using rep by blast
qed

theorem replacement_plan_entries_witness:
  "\<exists>rep. generateReport
       (analyzeFile lower_sample ''![Users](images/admin-users.png)'' ''docs/a.md'' @
        analyzeFile lower_sample ''See ![Users](images/admin-users.png)'' ''docs/b.md'') = Inr rep \<and>
     map imagePath (replacementPlan rep) = [''images/admin-users.png''] \<and>
     map category_e (replacementPlan rep) = [Admin] \<and>
     map referencedIn (replacementPlan rep) =
       [[\<lparr>file_l = ''docs/a.md'', line = 1\<rparr>, \<lparr>file_l = ''docs/b.md'', line = 1\<rparr>]]"
proof -
  let ?xs = "analyzeFile lower_sample ''![Users](images/admin-users.png)'' ''docs/a.md'' @
        analyzeFile lower_sample ''See ![Users](images/admin-users.png)'' ''docs/b.md''"
  let ?a = "\<lparr>alt = ''Users'', path = ''images/admin-users.png'',
             fullMatch = ''![Users](images/admin-users.png)'', sourceFile = ''docs/a.md'',
             lineNumber = 1, category = Admin, needsReplacement = True\<rparr>"
  let ?b = "\<lparr>alt = ''Users'', path = ''images/admin-users.png'',
             fullMatch = ''![Users](images/admin-users.png)'', sourceFile = ''docs/b.md'',
             lineNumber = 1, category = Admin, needsReplacement = True\<rparr>"
  have xs: "?xs = [?a, ?b]" by code_simp
  from replacement_plan_entries [of ?xs] obtain rep where
    rep: "generateReport ?xs = Inr rep"
    and d: "distinct (map imagePath (replacementPlan rep))"
    and s: "set (map imagePath (replacementPlan rep)) = path ` set (filter needsReplacement ?xs)"
    and e: "\<forall>e \<in> set (replacementPlan rep).
        referencedIn e =
          map (\<lambda>r. \<lparr>file_l = sourceFile r, line = lineNumber r\<rparr>)
            (filter (\<lambda>r. path r = imagePath e) (filter needsReplacement ?xs)) \<and>
        map_option category
          (find (\<lambda>r. path r = imagePath e) (filter needsReplacement ?xs)) =
          Some (category_e e)"
    by blast
  from s have "set (map imagePath (replacementPlan rep)) = {''images/admin-users.png''}"
    unfolding xs by simp
  with d have p: "map imagePath (replacementPlan rep) = [''images/admin-users.png'']"
    by (rule distinct_singleton_set)
  then obtain e0 where e0: "replacementPlan rep = [e0]" "imagePath e0 = ''images/admin-users.png''"
    by (auto dest: map_singleton)
  from e e0 have "referencedIn e0 = [\<lparr>file_l = ''docs/a.md'', line = 1\<rparr>, \<lparr>file_l = ''docs/b.md'', line = 1\<rparr>]"
    and "category_e e0 = Admin"
    unfolding xs by simp_all
  with rep p e0 show ?thesis by simp
qed

text \<open>
  Claim C10. The location lists of the replacement plan partition the flagged references:
  their lengths add up to the global flagged count. Locations are not deduplicated: two
  flagged references to one path on the same line of the same document give two equal
  locations.
\<close>

theorem plan_locations_partition:
  "(\<exists>rep. generateReport allImages = Inr rep \<and>
      sum_list (map (\<lambda>e. length (referencedIn e)) (replacementPlan rep)) =
        needsReplacement_s (summary rep)) \<and>
   map_sum id (\<lambda>rep. map referencedIn (replacementPlan rep))
     (generateReport (analyzeFile lower ''![a](cockpit.png) ![b](cockpit.png)'' ''guide.md'')) =
     Inr [[\<lparr>file_l = ''guide.md'', line = 1\<rparr>, \<lparr>file_l = ''guide.md'', line = 1\<rparr>]]"
proof
  let ?tr = "filter needsReplacement allImages"
  from generateReport_Inr [of allImages] obtain rep where
    rep: "generateReport allImages = Inr rep"
    and n: "needsReplacement_s (summary rep) = length ?tr"
    and r: "list_all2 (entry_rel ?tr) (new_Set (map path ?tr)) (replacementPlan rep)"
    by force
  from r have p: "map imagePath (replacementPlan rep) = new_Set (map path ?tr)"
    by (rule list_all2_entry_rel_paths)
  have "map (\<lambda>e. length (referencedIn e)) (replacementPlan rep) =
      map (\<lambda>e. length (filter (\<lambda>i. path i = imagePath e) ?tr)) (replacementPlan rep)"
    using list_all2_entry_rel_set [OF r] by (auto simp: entry_rel_def)
  also have "\<dots> = map (\<lambda>p. length (filter (\<lambda>i. path i = p) ?tr)) (new_Set (map path ?tr))"
    by (simp only: p [symmetric] map_map comp_def)
  finally have "sum_list (map (\<lambda>e. length (referencedIn e)) (replacementPlan rep)) =
      length (filter (\<lambda>i. path i \<in> set (new_Set (map path ?tr))) ?tr)"
    by (simp only: count_by_key [OF new_Set_distinct])
  also have "\<dots> = length ?tr"
  proof -
    have "filter (\<lambda>i. path i \<in> set (new_Set (map path ?tr))) ?tr = ?tr"
      unfolding new_Set_set by (rule filter_True) simp
    then show ?thesis by simp
  qed
  finally show "\<exists>rep. generateReport allImages = Inr rep \<and>
      sum_list (map (\<lambda>e. length (referencedIn e)) (replacementPlan rep)) =
        needsReplacement_s (summary rep)"
    using rep n by auto
next
  show "map_sum id (\<lambda>rep. map referencedIn (replacementPlan rep))
     (generateReport (analyzeFile lower ''![a](cockpit.png) ![b](cockpit.png)'' ''guide.md'')) =
     Inr [[\<lparr>file_l = ''guide.md'', line = 1\<rparr>, \<lparr>file_l = ''guide.md'', line = 1\<rparr>]]"
    by code_simp
qed

theorem plan_locations_partition_witness:
  "\<exists>rep. generateReport
       [\<lparr>alt = ''a'', path = ''cockpit.png'', fullMatch = ''![a](cockpit.png)'',
          sourceFile = ''a.md'', lineNumber = 1, category = Cockpit, needsReplacement = True\<rparr>,
        \<lparr>alt = ''b'', path = ''logo.png'', fullMatch = ''![b](logo.png)'',
          sourceFile = ''a.md'', lineNumber = 2, category = Other, needsReplacement = False\<rparr>,
        \<lparr>alt = ''c'', path = ''cockpit.png'', fullMatch = ''![c](cockpit.png)'',
          sourceFile = ''b.md'', lineNumber = 7, category = Cockpit, needsReplacement = True\<rparr>]
       = Inr rep \<and>
     sum_list (map (\<lambda>e. length (referencedIn e)) (replacementPlan rep)) = 2"
proof -
  let ?xs = "[\<lparr>alt = ''a'', path = ''cockpit.png'', fullMatch = ''![a](cockpit.png)'',
          sourceFile = ''a.md'', lineNumber = 1, category = Cockpit, needsReplacement = True\<rparr>,
        \<lparr>alt = ''b'', path = ''logo.png'', fullMatch = ''![b](logo.png)'',
          sourceFile = ''a.md'', lineNumber = 2, category = Other, needsReplacement = False\<rparr>,
        \<lparr>alt = ''c'', path = ''cockpit.png'', fullMatch = ''![c](cockpit.png)'',
          sourceFile = ''b.md'', lineNumber = 7, category = Cockpit, needsReplacement = True\<rparr>]"
  from plan_locations_partition [of ?xs, THEN conjunct1] obtain rep where
    rep: "generateReport ?xs = Inr rep"
    and n: "sum_list (map (\<lambda>e. length (referencedIn e)) (replacementPlan rep)) =
        needsReplacement_s (summary rep)"
    by blast
  have "map_sum id (\<lambda>rep. needsReplacement_s (summary rep)) (generateReport ?xs) = Inr 2"
    by code_simp
  with rep have "needsReplacement_s (summary rep) = 2" by simp
  with rep n show ?thesis by simp
qed

end
